theory Spec2Isabelle
  imports Main
begin

section \<open>Python strings\<close>

text \<open>
  A Python \<open>str\<close> is a sequence of code points. It is modelled as a \<open>string\<close> in which
  every \<open>char\<close> is one code point below 256, so the development covers the strings of
  that range; \<open>length\<close> counts code points, as \<open>len\<close> does.

  \<open>isspace\<close> is the whitespace test shared by \<open>str.strip()\<close> and by the class \<open>\s\<close> of
  \<open>re\<close> on \<open>str\<close> patterns: below 256 these are the code points 9 to 13, 28 to 32,
  133 and 160.
\<close>

definition isspace :: "char \<Rightarrow> bool" where
  "isspace c =
     (let n = (of_char c :: nat)
      in (9 \<le> n \<and> n \<le> 13) \<or> (28 \<le> n \<and> n \<le> 32) \<or> n = 133 \<or> n = 160)"

text \<open>\<open>s.strip()\<close>: leading and trailing whitespace removed.\<close>

definition strip :: "string \<Rightarrow> string" where
  "strip s = rev (dropWhile isspace (rev (dropWhile isspace s)))"

text \<open>
  \<open>s.lower()\<close>: below 256 the upper-case letters are A to Z and the code points 192 to
  222 without 215; each maps to the code point 32 above it.
\<close>

definition lower_char :: "char \<Rightarrow> char" where
  "lower_char c =
     (let n = (of_char c :: nat)
      in if (65 \<le> n \<and> n \<le> 90) \<or> (192 \<le> n \<and> n \<le> 222 \<and> n \<noteq> 215)
         then char_of (n + 32) else c)"

definition lower :: "string \<Rightarrow> string" where
  "lower s = map lower_char s"

text \<open>
  \<open>s.upper()\<close> leaves the range below 256 at three code points (181 becomes 924, 223
  becomes the two letters SS, 255 becomes 376), so its result is kept as a list of code
  points.
\<close>

definition upper_char :: "char \<Rightarrow> nat list" where
  "upper_char c =
     (let n = (of_char c :: nat)
      in if (97 \<le> n \<and> n \<le> 122) \<or> (224 \<le> n \<and> n \<le> 254 \<and> n \<noteq> 247) then [n - 32]
         else if n = 181 then [924]
         else if n = 223 then [83, 83]
         else if n = 255 then [376]
         else [n])"

definition upper :: "string \<Rightarrow> nat list" where
  "upper s = concat (map upper_char s)"

definition code_points :: "string \<Rightarrow> nat list" where
  "code_points s = map of_char s"

text \<open>\<open>s.startswith(p)\<close> and \<open>p in s\<close> (substring test).\<close>

fun startswith :: "string \<Rightarrow> string \<Rightarrow> bool" where
  "startswith s [] = True"
| "startswith [] (p # ps) = False"
| "startswith (c # cs) (p # ps) = (c = p \<and> startswith cs ps)"

fun str_in :: "string \<Rightarrow> string \<Rightarrow> bool" where
  "str_in p [] = (p = [])"
| "str_in p (c # cs) = (startswith (c # cs) p \<or> str_in p cs)"

text \<open>\<open>sep.join(xs)\<close>.\<close>

fun join :: "string \<Rightarrow> string list \<Rightarrow> string" where
  "join sep [] = []"
| "join sep [x] = x"
| "join sep (x # y # ys) = x @ sep @ join sep (y # ys)"

text \<open>\<open>s.replace(a, b)\<close> for one-character \<open>a\<close> and \<open>b\<close>.\<close>

definition replace :: "char \<Rightarrow> char \<Rightarrow> string \<Rightarrow> string" where
  "replace a b s = map (\<lambda>c. if c = a then b else c) s"

section \<open>Python sets of strings\<close>

text \<open>
  A set is kept as the list of its elements in insertion order, without duplicates.
  Iterating a CPython set visits the slots of its hash table in index order. The slot a
  string lands in depends on the hash seed of the process and, where strings collide,
  on the strings inserted before it: within one process the iteration order of a set is
  a function of its insertion history, and two sets with the same elements inserted in
  different orders may iterate differently. The model takes this function as a
  parameter \<open>slot\<close>, which gives each string its rank in the table of the set with a
  given insertion history: iteration is the insertion list stably sorted by that rank.
  So the result is always an ordering of the elements, every ordering of every set
  arises for some \<open>slot\<close>, independently for different histories, and one \<open>slot\<close> gives
  one order to one history throughout a run.
\<close>

definition set_add :: "string \<Rightarrow> string list \<Rightarrow> string list" where
  "set_add x xs = (if x \<in> set xs then xs else xs @ [x])"

definition set_iter :: "(string list \<Rightarrow> string \<Rightarrow> nat) \<Rightarrow> string list \<Rightarrow> string list" where
  "set_iter slot xs = sort_key (slot xs) xs"

text \<open>
  \<open>sorted(xs, key=len, reverse=True)\<close>: a stable sort by decreasing length (with
  \<open>reverse=True\<close> elements of equal key keep their original order).
\<close>

definition sorted_len_reverse :: "string list \<Rightarrow> string list" where
  "sorted_len_reverse xs = sort_key (\<lambda>s. - int (length s)) xs"

section \<open>The query compiler (query.py)\<close>

definition FIELDS :: "string list" where
  "FIELDS = [''ti'', ''abs'', ''co'']"

definition quote :: "string \<Rightarrow> string" where
  "quote term =
     (let t = strip term
      in if list_ex (\<lambda>c. isspace c \<or> c = CHR ''-'') t
         then [CHR 0x22] @ t @ [CHR 0x22]
         else t)"

definition field_or :: "string list \<Rightarrow> string \<Rightarrow> string" where
  "field_or fields term =
     (let q = quote term
      in ''('' @ join '' OR '' (map (\<lambda>f. f @ '':'' @ q) fields) @ '')'')"

definition expand_variants :: "(string list \<Rightarrow> string \<Rightarrow> nat) \<Rightarrow> string \<Rightarrow> string list" where
  "expand_variants slot kw =
     (let k = strip kw;
          out = [k];
          out = (if CHR '' '' \<in> set k then set_add (replace CHR '' '' CHR ''-'' k) out else out);
          out = (if CHR ''-'' \<in> set k then set_add (replace CHR ''-'' CHR '' '' k) out else out)
      in sorted_len_reverse (set_iter slot out))"

text \<open>The set \<open>out\<close> of \<open>_expand_variants\<close> as it stands on line 25, before it is sorted.\<close>

definition variant_set :: "string \<Rightarrow> string list" where
  "variant_set kw =
     (let k = strip kw;
          out = [k];
          out = (if CHR '' '' \<in> set k then set_add (replace CHR '' '' CHR ''-'' k) out else out);
          out = (if CHR ''-'' \<in> set k then set_add (replace CHR ''-'' CHR '' '' k) out else out)
      in out)"

definition ov_terms :: "string list" where
  "ov_terms = [''open vocabulary'', ''open-vocabulary'',
               ''open-vocabulary segmentation'', ''open vocabulary segmentation'']"

definition seg_terms :: "string list" where
  "seg_terms = [''segmentation'', ''image segmentation'']"

definition kw_group :: "(string list \<Rightarrow> string \<Rightarrow> nat) \<Rightarrow> string \<Rightarrow> string" where
  "kw_group slot kw =
     (let variants = expand_variants slot kw;
          parts = map (field_or FIELDS) variants;
          low = lower kw;
          parts =
            (if (str_in ''open vocabulary'' low \<or> str_in ''open-vocabulary'' low)
                \<and> str_in ''segmentation'' low
             then
               (let ov_or = ''('' @ join '' OR '' (map (field_or FIELDS) ov_terms) @ '')'';
                    seg_or = ''('' @ join '' OR '' (map (field_or FIELDS) seg_terms) @ '')''
                in parts @ [''('' @ ov_or @ '' AND '' @ seg_or @ '')''])
             else parts)
      in ''('' @ join '' OR '' parts @ '')'')"

text \<open>
  \<open>[c.strip() for c in (xs or []) if c and c.strip()]\<close>: an absent list is \<open>None\<close>.
\<close>

definition normalize_list :: "string list option \<Rightarrow> string list" where
  "normalize_list xs =
     map strip (filter (\<lambda>c. c \<noteq> [] \<and> strip c \<noteq> []) (case xs of None \<Rightarrow> [] | Some l \<Rightarrow> l))"

text \<open>\<open>logic or "AND"\<close>: \<open>None\<close> and the empty string are both falsy.\<close>

definition logic_or_default :: "string option \<Rightarrow> string" where
  "logic_or_default logic =
     (case logic of None \<Rightarrow> ''AND'' | Some s \<Rightarrow> (if s = [] then ''AND'' else s))"

definition build_search_query ::
  "(string list \<Rightarrow> string \<Rightarrow> nat) \<Rightarrow> string list option \<Rightarrow> string list option
     \<Rightarrow> string option \<Rightarrow> string list option \<Rightarrow> string" where
  "build_search_query slot categories keywords logic exclude_keywords =
     (let cats = normalize_list categories;
          keys = normalize_list keywords;
          exclude_keys = normalize_list exclude_keywords;
          cat_q = (if cats \<noteq> []
                   then ''('' @ join '' OR '' (map (\<lambda>c. ''cat:'' @ c) cats) @ '')'' else []);
          key_q = (if keys \<noteq> []
                   then ''('' @ join '' OR '' (map (kw_group slot) keys) @ '')'' else []);
          exclude_q = (if exclude_keys \<noteq> []
                       then ''('' @ join '' OR '' (map (kw_group slot) exclude_keys) @ '')''
                       else []);
          main_query =
            (if cat_q \<noteq> [] \<and> key_q \<noteq> [] then
               (let op = (if upper (logic_or_default logic) = code_points ''AND''
                          then ''AND'' else ''OR'')
                in cat_q @ '' '' @ op @ '' '' @ key_q)
             else if cat_q \<noteq> [] then cat_q
             else if key_q \<noteq> [] then key_q
             else ''all:*'')
      in if exclude_q \<noteq> [] then ''('' @ main_query @ '') ANDNOT '' @ exclude_q
         else main_query)"

section \<open>Notions of the specification\<close>

text \<open>
  The natural ordering of strings, code point by code point, and the order the
  specification gives for the variants: longer first, equal lengths in natural order.
\<close>

fun str_le :: "string \<Rightarrow> string \<Rightarrow> bool" where
  "str_le [] t = True"
| "str_le (c # cs) [] = False"
| "str_le (c # cs) (d # ds) = ((of_char c :: nat) < of_char d \<or> (c = d \<and> str_le cs ds))"

definition longest_first_then_lex :: "string \<Rightarrow> string \<Rightarrow> bool" where
  "longest_first_then_lex a b =
     (length b < length a \<or> (length a = length b \<and> str_le a b))"

text \<open>The position of a string in a list (the length of the list when it is absent).\<close>

fun index_of :: "string list \<Rightarrow> string \<Rightarrow> nat" where
  "index_of [] s = 0"
| "index_of (x # xs) s = (if x = s then 0 else Suc (index_of xs s))"

text \<open>
  The synonym clause of the specification, written out: the conjunction of the four
  open-vocabulary phrasings and the two segmentation phrasings, each over the three
  fields.
\<close>

definition synonym_clause :: string where
  \<open>synonym_clause =
     ''(((ti:"open vocabulary" OR abs:"open vocabulary" OR co:"open vocabulary")'' @
     '' OR (ti:"open-vocabulary" OR abs:"open-vocabulary" OR co:"open-vocabulary")'' @
     '' OR (ti:"open-vocabulary segmentation" OR abs:"open-vocabulary segmentation"'' @
     '' OR co:"open-vocabulary segmentation")'' @
     '' OR (ti:"open vocabulary segmentation" OR abs:"open vocabulary segmentation"'' @
     '' OR co:"open vocabulary segmentation"))'' @
     '' AND ((ti:segmentation OR abs:segmentation OR co:segmentation)'' @
     '' OR (ti:"image segmentation" OR abs:"image segmentation" OR co:"image segmentation")))''\<close>

text \<open>
  A logic string matches \<open>AND\<close> case-insensitively when it is one of the eight spellings
  of the three letters.
\<close>

definition matches_AND :: "string \<Rightarrow> bool" where
  "matches_AND s =
     (s \<in> set [''AND'', ''ANd'', ''AnD'', ''And'', ''aND'', ''aNd'', ''anD'', ''and''])"

text \<open>The category expression and the OR-group of keyword groups, as texts.\<close>

abbreviation cat_expr :: "string list \<Rightarrow> string" where
  "cat_expr cs \<equiv> ''('' @ join '' OR '' (map (\<lambda>c. ''cat:'' @ c) cs) @ '')''"

abbreviation kw_expr :: "(string list \<Rightarrow> string \<Rightarrow> nat) \<Rightarrow> string list \<Rightarrow> string" where
  "kw_expr slot ks \<equiv> ''('' @ join '' OR '' (map (kw_group slot) ks) @ '')''"

section \<open>Facts about \<open>strip\<close>\<close>

lemma dropWhile_id: "xs = [] \<or> \<not> P (hd xs) \<Longrightarrow> dropWhile P xs = xs"
  by (cases xs) auto

lemma last_dropWhile: "dropWhile P xs \<noteq> [] \<Longrightarrow> last (dropWhile P xs) = last xs"
  by (induction xs) (auto split: if_splits)

text \<open>A non-empty stripped string neither starts nor ends with whitespace.\<close>

lemma strip_ends:
  assumes "strip s \<noteq> []"
  shows "\<not> isspace (hd (strip s))" and "\<not> isspace (last (strip s))"
proof -
  let ?d = "dropWhile isspace s"
  let ?e = "dropWhile isspace (rev ?d)"
  have e: "?e \<noteq> []" using assms unfolding strip_def rev_is_Nil_conv .
  have d: "?d \<noteq> []" using e by (metis dropWhile.simps(1) rev.simps(1))
  have "hd (strip s) = last ?e" using e by (simp add: strip_def hd_rev)
  also have "\<dots> = last (rev ?d)" using e by (rule last_dropWhile)
  also have "\<dots> = hd ?d" using d by (simp add: last_rev)
  finally show "\<not> isspace (hd (strip s))" using hd_dropWhile[OF d] by simp
  have "last (strip s) = hd ?e" using e by (simp add: strip_def last_rev)
  then show "\<not> isspace (last (strip s))" using hd_dropWhile[OF e] by simp
qed

lemma strip_id:
  assumes "s = [] \<or> (\<not> isspace (hd s) \<and> \<not> isspace (last s))"
  shows "strip s = s"
proof -
  have 1: "dropWhile isspace s = s" using assms by (intro dropWhile_id) auto
  have 2: "dropWhile isspace (rev s) = rev s"
    using assms by (intro dropWhile_id) (auto simp: hd_rev)
  show ?thesis by (simp add: strip_def 1 2)
qed

lemma strip_idem: "strip (strip s) = strip s"
  using strip_ends[of s] by (intro strip_id) auto

lemma isspace_space: "isspace CHR '' ''"
  by (simp add: isspace_def)

section \<open>Quoter (\<open>_quote\<close>)\<close>

lemma quote_strip: "quote (strip s) = quote s"
  by (simp add: quote_def strip_idem)

lemma strip_quote: "strip (quote s) = quote s"
proof (cases "list_ex (\<lambda>c. isspace c \<or> c = CHR ''-'') (strip s)")
  case True
  then have "quote s = [CHR 0x22] @ strip s @ [CHR 0x22]" by (simp add: quote_def)
  moreover have "strip ([CHR 0x22] @ strip s @ [CHR 0x22]) = [CHR 0x22] @ strip s @ [CHR 0x22]"
    by (rule strip_id) (simp add: isspace_def)
  ultimately show ?thesis by simp
next
  case False
  then show ?thesis by (simp add: quote_def strip_idem)
qed

text \<open>
  C10. \<open>_quote\<close> strips its argument before testing and quoting: it gives the same result
  on a string and on its stripped form, its result has no leading or trailing whitespace
  (stripping it again changes nothing), and the result is the stripped term, either bare
  or between double quotes.
\<close>

theorem quote_trims:
  "quote s = quote (strip s) \<and> strip (quote s) = quote s
   \<and> (quote s = strip s \<or> quote s = [CHR 0x22] @ strip s @ [CHR 0x22])"
  by (simp add: quote_strip strip_quote) (simp add: quote_def Let_def)

theorem quote_trims_witness:
  "quote '' a-b  '' = quote ''a-b'' \<and> quote '' a-b  '' = [CHR 0x22] @ ''a-b'' @ [CHR 0x22]"
  using quote_trims [of "'' a-b  ''"] by (simp add: quote_def strip_def isspace_def)

text \<open>
  C8, as stated, asks \<open>_quote\<close> to return every term that contains a space or a hyphen
  between double quotes, whole. A term with a leading space is stripped first: the
  result of \<open>_quote(" a")\<close> is \<open>a\<close>, not the quoted \<open>" a"\<close>.
\<close>

theorem quote_untrimmed_counterexample:
  "CHR '' '' \<in> set '' a'' \<and> quote '' a'' = ''a''
   \<and> quote '' a'' \<noteq> [CHR 0x22] @ '' a'' @ [CHR 0x22]"
  by (simp add: quote_def strip_def isspace_def)

text \<open>
  The test of \<open>_quote\<close> is the class \<open>[\s-]\<close>, any whitespace or a hyphen: a stripped term
  with an inner tab and neither space nor hyphen is quoted as well.
\<close>

lemma quote_inner_tab:
  "CHR '' '' \<notin> set [CHR ''a'', CHR 0x09, CHR ''b'']
   \<and> CHR ''-'' \<notin> set [CHR ''a'', CHR 0x09, CHR ''b'']
   \<and> strip [CHR ''a'', CHR 0x09, CHR ''b''] = [CHR ''a'', CHR 0x09, CHR ''b'']
   \<and> quote [CHR ''a'', CHR 0x09, CHR ''b''] \<noteq> [CHR ''a'', CHR 0x09, CHR ''b'']"
  by (simp add: quote_def strip_def isspace_def)

text \<open>
  C8, amended. For every term that is already stripped: if it contains a space or a
  hyphen (more generally any whitespace character or a hyphen), \<open>_quote\<close> returns the
  term between double quotes; if it contains no whitespace character and no hyphen,
  \<open>_quote\<close> returns the term unchanged.
\<close>

theorem quote_trimmed:
  assumes "strip t = t"
  shows "(CHR '' '' \<in> set t \<or> CHR ''-'' \<in> set t \<longrightarrow> quote t = [CHR 0x22] @ t @ [CHR 0x22])
       \<and> ((\<exists>c \<in> set t. isspace c \<or> c = CHR ''-'') \<longrightarrow> quote t = [CHR 0x22] @ t @ [CHR 0x22])
       \<and> ((\<forall>c \<in> set t. \<not> isspace c \<and> c \<noteq> CHR ''-'') \<longrightarrow> quote t = t)"
  using assms isspace_space by (auto simp: quote_def list_ex_iff)

theorem quote_trimmed_witness:
  "strip ''a b'' = ''a b'' \<and> CHR '' '' \<in> set ''a b''
   \<and> quote ''a b'' = [CHR 0x22] @ ''a b'' @ [CHR 0x22]
   \<and> strip ''nerf'' = ''nerf'' \<and> \<not> (\<exists>c \<in> set ''nerf''. isspace c \<or> c = CHR ''-'')
   \<and> quote ''nerf'' = ''nerf''"
proof -
  have a: "strip ''a b'' = ''a b''" by (simp add: strip_def isspace_def)
  have b: "strip ''nerf'' = ''nerf''" by (simp add: strip_def isspace_def)
  have c: "\<forall>c \<in> set ''nerf''. \<not> isspace c \<and> c \<noteq> CHR ''-''" by (simp add: isspace_def)
  show ?thesis using quote_trimmed [OF a] quote_trimmed [OF b] a b c by simp
qed

section \<open>Iteration order of a set\<close>

text \<open>
  Sorting a list by the positions its elements have in a reordering of it gives that
  reordering. Hence any assignment of an iteration order to every insertion history is
  the iteration of some \<open>slot\<close>: no behaviour of a process is left out.
\<close>

lemma map_index_of: "distinct ys \<Longrightarrow> map (index_of ys) ys = [0..<length ys]"
proof (induction ys)
  case Nil
  then show ?case by simp
next
  case (Cons y ys)
  from Cons.prems have y: "y \<notin> set ys" and d: "distinct ys" by simp_all
  have "map (index_of (y # ys)) ys = map (\<lambda>z. Suc (index_of ys z)) ys"
    using y by (intro map_cong) auto
  also have "\<dots> = map Suc (map (index_of ys) ys)" by simp
  also have "\<dots> = map Suc [0..<length ys]" using Cons.IH[OF d] by (simp only:)
  finally have e: "map (index_of (y # ys)) ys = map Suc [0..<length ys]" .
  have "map (index_of (y # ys)) (y # ys) = 0 # map (index_of (y # ys)) ys" by simp
  also have "\<dots> = 0 # map Suc [0..<length ys]" using e by (simp only:)
  also have "\<dots> = 0 # [Suc 0..<Suc (length ys)]" by (simp only: map_Suc_upt)
  also have "\<dots> = [0..<Suc (length ys)]" by (simp only: upt_conv_Cons[OF zero_less_Suc])
  finally show ?case by (simp only: length_Cons)
qed

lemma sort_key_index_of:
  assumes "distinct xs" and "distinct ys" and "set ys = set xs"
  shows "sort_key (index_of ys) xs = ys"
proof -
  let ?f = "index_of ys"
  have m: "map ?f ys = [0..<length ys]" using assms(2) by (rule map_index_of)
  then have inj: "inj_on ?f (set ys)" using distinct_map[of ?f ys] by simp
  have "sorted (map ?f (sort_key ?f xs))" by simp
  moreover have "distinct (map ?f (sort_key ?f xs))"
    using inj assms(1,3) by (simp add: distinct_map)
  moreover have "sorted (map ?f ys)" "distinct (map ?f ys)" using m by simp_all
  moreover have "set (map ?f (sort_key ?f xs)) = set (map ?f ys)" using assms(3) by simp
  ultimately have "map ?f (sort_key ?f xs) = map ?f ys"
    by (metis sorted_distinct_set_unique)
  moreover have "inj_on ?f (set (sort_key ?f xs) \<union> set ys)" using inj assms(3) by simp
  ultimately show ?thesis by (simp add: inj_on_map_eq_map)
qed

lemma set_iter_any_order:
  assumes "distinct xs" and "distinct (order xs)" and "set (order xs) = set xs"
  shows "set_iter (\<lambda>h. index_of (order h)) xs = order xs"
  using assms by (simp add: set_iter_def sort_key_index_of)

section \<open>VariantExpander (\<open>_expand_variants\<close>)\<close>

lemma set_add_set: "set (set_add x xs) = insert x (set xs)"
  by (auto simp: set_add_def)

lemma set_add_distinct: "distinct xs \<Longrightarrow> distinct (set_add x xs)"
  by (simp add: set_add_def)

lemma set_sorted_iter: "set (sorted_len_reverse (set_iter slot xs)) = set xs"
  by (simp add: sorted_len_reverse_def set_iter_def)

lemma distinct_sorted_iter: "distinct (sorted_len_reverse (set_iter slot xs)) = distinct xs"
  by (simp add: sorted_len_reverse_def set_iter_def)

text \<open>
  C6. Whatever the iteration order of the set, the variants returned for a keyword are
  exactly: the stripped keyword; if that contains a space, the stripped keyword with
  every space replaced by a hyphen; if it contains a hyphen, the stripped keyword with
  every hyphen replaced by a space; and no variant occurs twice. For
  \<open>open vocabulary\<close> these are \<open>open vocabulary\<close> and \<open>open-vocabulary\<close>, for
  \<open>segmentation\<close> only \<open>segmentation\<close>.
\<close>

theorem expand_variants_set:
  "set (expand_variants slot kw) =
     {strip kw}
     \<union> (if CHR '' '' \<in> set (strip kw) then {replace CHR '' '' CHR ''-'' (strip kw)} else {})
     \<union> (if CHR ''-'' \<in> set (strip kw) then {replace CHR ''-'' CHR '' '' (strip kw)} else {})
   \<and> distinct (expand_variants slot kw)
   \<and> set (expand_variants slot ''open vocabulary'') = {''open vocabulary'', ''open-vocabulary''}
   \<and> set (expand_variants slot ''segmentation'') = {''segmentation''}"
proof -
  have g: "set (expand_variants slot k) =
     {strip k}
     \<union> (if CHR '' '' \<in> set (strip k) then {replace CHR '' '' CHR ''-'' (strip k)} else {})
     \<union> (if CHR ''-'' \<in> set (strip k) then {replace CHR ''-'' CHR '' '' (strip k)} else {})" for k
    by (auto simp: expand_variants_def Let_def set_sorted_iter set_add_set)
  have d: "distinct (expand_variants slot kw)"
    by (simp add: expand_variants_def Let_def distinct_sorted_iter set_add_distinct)
  have s1: "strip ''open vocabulary'' = ''open vocabulary''"
    by (simp add: strip_def isspace_def)
  have s2: "strip ''segmentation'' = ''segmentation''"
    by (simp add: strip_def isspace_def)
  have e1: "set (expand_variants slot ''open vocabulary'')
            = {''open vocabulary'', ''open-vocabulary''}"
    unfolding g s1 by (auto simp: replace_def)
  have e2: "set (expand_variants slot ''segmentation'') = {''segmentation''}"
    unfolding g s2 by (simp add: replace_def)
  show ?thesis using g[of kw] d e1 e2 by blast
qed

theorem expand_variants_set_witness:
  "set (expand_variants (\<lambda>h s. length s) ''  a-b c '') = {''a-b c'', ''a-b-c'', ''a b c''}
   \<and> distinct (expand_variants (\<lambda>h s. length s) ''  a-b c '')"
proof -
  have s: "strip ''  a-b c '' = ''a-b c''" by (simp add: strip_def isspace_def)
  show ?thesis using expand_variants_set [of "\<lambda>h s. length s" "''  a-b c ''"]
    unfolding s by (auto simp: replace_def)
qed

text \<open>
  C7, as stated, asks for equal-length variants in natural string order. The code sorts
  by length only, and a stable sort keeps equal-length variants in the iteration order of
  the set: when the set yields \<open>a-b\<close> before \<open>a b\<close>, so does \<open>_expand_variants("a b")\<close>,
  although \<open>a b\<close> is the smaller string.
\<close>

theorem expand_variants_tie_counterexample:
  "expand_variants (\<lambda>h s. if s = ''a-b'' then 0 else 1) ''a b'' = [''a-b'', ''a b'']
   \<and> \<not> sorted_wrt longest_first_then_lex
         (expand_variants (\<lambda>h s. if s = ''a-b'' then 0 else 1) ''a b'')"
  by (simp add: expand_variants_def strip_def isspace_def replace_def set_add_def set_iter_def
      sorted_len_reverse_def longest_first_then_lex_def)

text \<open>The other iteration order gives the other result for the same keyword.\<close>

lemma expand_variants_other_order:
  "expand_variants (\<lambda>h s. if s = ''a-b'' then 1 else 0) ''a b'' = [''a b'', ''a-b'']"
  by (simp add: expand_variants_def strip_def isspace_def replace_def set_add_def set_iter_def
      sorted_len_reverse_def)

text \<open>
  In one process two sets with the same elements may each yield the string inserted
  second first: then the keywords \<open>a b\<close> and \<open>a-b\<close> get the two opposite lists.
\<close>

lemma both_second_first:
  "expand_variants (\<lambda>h s. if s = hd h then 1 else 0) ''a b'' = [''a-b'', ''a b'']
   \<and> expand_variants (\<lambda>h s. if s = hd h then 1 else 0) ''a-b'' = [''a b'', ''a-b'']"
  by (simp add: expand_variants_def strip_def isspace_def replace_def set_add_def set_iter_def
      sorted_len_reverse_def)

text \<open>
  All variants have the length of the stripped keyword, so sorting by length moves
  nothing: the list returned is the iteration of the set \<open>out\<close>.
\<close>

lemma sort_key_same_key: "\<forall>x \<in> set xs. f x = c \<Longrightarrow> sort_key f xs = xs"
  by (rule sort_key_id_if_sorted) (simp add: sorted_wrt_iff_nth_less sorted_map)

lemma expand_variants_variant_set:
  "expand_variants slot kw = sorted_len_reverse (set_iter slot (variant_set kw))"
  by (simp add: expand_variants_def variant_set_def Let_def)

lemma variant_set_lengths: "v \<in> set (variant_set kw) \<Longrightarrow> length v = length (strip kw)"
  by (auto simp: variant_set_def Let_def set_add_def replace_def split: if_splits)

lemma expand_variants_iter: "expand_variants slot kw = set_iter slot (variant_set kw)"
proof -
  have "\<forall>v \<in> set (set_iter slot (variant_set kw)). - int (length v) = - int (length (strip kw))"
    by (simp add: set_iter_def variant_set_lengths)
  then show ?thesis
    unfolding expand_variants_variant_set sorted_len_reverse_def by (rule sort_key_same_key)
qed

text \<open>
  C7, amended. The variants are returned longest first, that is in non-increasing
  length; all of them have the length of the stripped keyword; and the order among
  these equal-length variants is the iteration order of the set: the list returned is
  the set \<open>out\<close> as its iteration yields it, with no tie-break by string order.
\<close>

theorem expand_variants_longest_first:
  "sorted_wrt (\<lambda>a b. length b \<le> length a) (expand_variants slot kw)
   \<and> list_all (\<lambda>v. length v = length (strip kw)) (expand_variants slot kw)
   \<and> expand_variants slot kw = set_iter slot (variant_set kw)"
proof -
  have "sorted (map (\<lambda>s. - int (length s)) (sorted_len_reverse xs))" for xs
    by (simp add: sorted_len_reverse_def)
  then have "sorted_wrt (\<lambda>a b. length b \<le> length a) (sorted_len_reverse xs)" for xs
    by (simp add: sorted_map)
  then have a: "sorted_wrt (\<lambda>a b. length b \<le> length a) (expand_variants slot kw)"
    by (simp add: expand_variants_def Let_def)
  have b: "list_all (\<lambda>v. length v = length (strip kw)) (expand_variants slot kw)"
    by (auto simp: list_all_iff expand_variants_def Let_def set_sorted_iter set_add_set
        replace_def split: if_splits)
  show ?thesis using a b expand_variants_iter [of slot kw] by simp
qed

theorem expand_variants_longest_first_witness:
  "expand_variants (\<lambda>h s. if s = hd h then 1 else 0) ''a-b c''
     = set_iter (\<lambda>h s. if s = hd h then 1 else 0) [''a-b c'', ''a-b-c'', ''a b c'']
   \<and> expand_variants (\<lambda>h s. if s = hd h then 1 else 0) ''a-b c''
     = [''a-b-c'', ''a b c'', ''a-b c'']"
proof -
  have v: "variant_set ''a-b c'' = [''a-b c'', ''a-b-c'', ''a b c'']"
    by (simp add: variant_set_def strip_def isspace_def replace_def set_add_def)
  show ?thesis
    using expand_variants_longest_first [of "\<lambda>h s. if s = hd h then 1 else 0" "''a-b c''"]
    unfolding v by (simp add: set_iter_def)
qed

section \<open>KeywordGroup (\<open>_kw_group\<close>)\<close>

lemma field_or_terms:
  \<open>field_or FIELDS ''open vocabulary''
     = ''(ti:"open vocabulary" OR abs:"open vocabulary" OR co:"open vocabulary")''\<close>
  \<open>field_or FIELDS ''open-vocabulary''
     = ''(ti:"open-vocabulary" OR abs:"open-vocabulary" OR co:"open-vocabulary")''\<close>
  \<open>field_or FIELDS ''open-vocabulary segmentation''
     = ''(ti:"open-vocabulary segmentation" OR abs:"open-vocabulary segmentation"''
       @ '' OR co:"open-vocabulary segmentation")''\<close>
  \<open>field_or FIELDS ''open vocabulary segmentation''
     = ''(ti:"open vocabulary segmentation" OR abs:"open vocabulary segmentation"''
       @ '' OR co:"open vocabulary segmentation")''\<close>
  \<open>field_or FIELDS ''segmentation''
     = ''(ti:segmentation OR abs:segmentation OR co:segmentation)''\<close>
  \<open>field_or FIELDS ''image segmentation''
     = ''(ti:"image segmentation" OR abs:"image segmentation" OR co:"image segmentation")''\<close>
  by (simp_all add: field_or_def FIELDS_def quote_def strip_def isspace_def)

lemma synonym_clause_code:
  "''('' @ (''('' @ join '' OR '' (map (field_or FIELDS) ov_terms) @ '')'') @ '' AND ''
     @ (''('' @ join '' OR '' (map (field_or FIELDS) seg_terms) @ '')'') @ '')''
   = synonym_clause"
  by (simp add: ov_terms_def seg_terms_def field_or_terms synonym_clause_def)

text \<open>
  C2. The group of a keyword is the parenthesised OR of the field expressions of its
  variants, in variant order, followed by exactly one more disjunct, the synonym clause,
  when the lower-cased keyword contains \<open>open vocabulary\<close> or \<open>open-vocabulary\<close> and also
  \<open>segmentation\<close>, and by nothing more for every other keyword.
\<close>

theorem kw_group_synonym:
  "kw_group slot kw =
     ''('' @ join '' OR ''
       (map (field_or FIELDS) (expand_variants slot kw)
        @ (if (str_in ''open vocabulary'' (lower kw) \<or> str_in ''open-vocabulary'' (lower kw))
              \<and> str_in ''segmentation'' (lower kw)
           then [synonym_clause] else [])) @ '')''"
  using synonym_clause_code by (simp add: kw_group_def Let_def)

theorem kw_group_synonym_witness:
  "kw_group (\<lambda>h s. 0) ''Open-Vocabulary Segmentation'' =
     ''('' @ field_or FIELDS ''Open-Vocabulary Segmentation'' @ '' OR ''
      @ field_or FIELDS ''Open-Vocabulary-Segmentation'' @ '' OR ''
      @ field_or FIELDS ''Open Vocabulary Segmentation'' @ '' OR '' @ synonym_clause @ '')''
   \<and> kw_group (\<lambda>h s. 0) ''transformer''
       = ''((ti:transformer OR abs:transformer OR co:transformer))''"
  using kw_group_synonym [of "\<lambda>h s. 0" "''Open-Vocabulary Segmentation''"]
    kw_group_synonym [of "\<lambda>h s. 0" "''transformer''"]
  by (simp add: expand_variants_def strip_def isspace_def set_iter_def sorted_len_reverse_def
      set_add_def replace_def lower_def lower_char_def char_of_eq_iff field_or_def FIELDS_def
      quote_def)

text \<open>
  The substring test, characterised; it is not affected by stripping the text searched
  when the phrase neither starts nor ends with whitespace.
\<close>

lemma startswith_iff: "startswith s p \<longleftrightarrow> (\<exists>b. s = p @ b)"
  by (induction s p rule: startswith.induct) auto

lemma str_in_iff: "str_in p s \<longleftrightarrow> (\<exists>a b. s = a @ p @ b)"
proof (induction s)
  case Nil
  then show ?case by auto
next
  case (Cons c cs)
  show ?case
  proof
    assume "str_in p (c # cs)"
    then consider "startswith (c # cs) p" | "str_in p cs" by auto
    then show "\<exists>a b. c # cs = a @ p @ b"
    proof cases
      case 1
      then obtain b where "c # cs = p @ b" by (auto simp: startswith_iff)
      then have "c # cs = [] @ p @ b" by simp
      then show ?thesis by blast
    next
      case 2
      then obtain a b where "cs = a @ p @ b" using Cons.IH by blast
      then have "c # cs = (c # a) @ p @ b" by simp
      then show ?thesis by blast
    qed
  next
    assume "\<exists>a b. c # cs = a @ p @ b"
    then obtain a b where ab: "c # cs = a @ p @ b" by blast
    show "str_in p (c # cs)"
    proof (cases a)
      case Nil
      then have "startswith (c # cs) p" using ab by (auto simp: startswith_iff)
      then show ?thesis by simp
    next
      case (Cons x xs)
      then have "cs = xs @ p @ b" using ab by simp
      then have "str_in p cs" using Cons.IH by blast
      then show ?thesis by simp
    qed
  qed
qed

lemma str_in_rev: "str_in (rev p) (rev s) = str_in p s"
proof -
  have "(\<exists>a b. rev s = a @ rev p @ b) \<longleftrightarrow> (\<exists>a b. s = a @ p @ b)"
  proof
    assume "\<exists>a b. rev s = a @ rev p @ b"
    then obtain a b where "rev s = a @ rev p @ b" by blast
    then have "rev (rev s) = rev (a @ rev p @ b)" by simp
    then have "s = rev b @ p @ rev a" by simp
    then show "\<exists>a b. s = a @ p @ b" by blast
  next
    assume "\<exists>a b. s = a @ p @ b"
    then obtain a b where "s = a @ p @ b" by blast
    then have "rev s = rev b @ rev p @ rev a" by simp
    then show "\<exists>a b. rev s = a @ rev p @ b" by blast
  qed
  then show ?thesis by (simp add: str_in_iff)
qed

lemma str_in_dropWhile:
  assumes "p \<noteq> []" and "\<not> isspace (hd p)"
  shows "str_in p (dropWhile isspace s) = str_in p s"
proof (induction s)
  case Nil
  then show ?case by simp
next
  case (Cons c cs)
  show ?case
  proof (cases "isspace c")
    case True
    then have "\<not> startswith (c # cs) p" using assms by (cases p) auto
    then show ?thesis using True Cons.IH by simp
  next
    case False
    then show ?thesis by simp
  qed
qed

lemma str_in_strip:
  assumes "p \<noteq> []" and "\<not> isspace (hd p)" and "\<not> isspace (last p)"
  shows "str_in p (strip s) = str_in p s"
proof -
  have r: "rev p \<noteq> []" "\<not> isspace (hd (rev p))" using assms by (simp_all add: hd_rev)
  have "str_in p (strip s) = str_in (rev p) (dropWhile isspace (rev (dropWhile isspace s)))"
    unfolding strip_def using str_in_rev[of p "rev (dropWhile isspace (rev (dropWhile isspace s)))"]
    by simp
  also have "\<dots> = str_in (rev p) (rev (dropWhile isspace s))"
    using r by (rule str_in_dropWhile)
  also have "\<dots> = str_in p (dropWhile isspace s)" by (rule str_in_rev)
  also have "\<dots> = str_in p s" using assms(1,2) by (rule str_in_dropWhile)
  finally show ?thesis .
qed

text \<open>
  Lower-casing commutes with stripping, so a keyword and its stripped form have the same
  group.
\<close>

lemma isspace_lower_char: "isspace (lower_char c) = isspace c"
proof -
  have "of_char c < (256::nat)" by (rule nat_of_char_less_256)
  then show ?thesis by (auto simp: isspace_def lower_char_def Let_def)
qed

lemma lower_strip: "lower (strip s) = strip (lower s)"
proof -
  have c: "isspace \<circ> lower_char = isspace" by (rule ext) (simp add: isspace_lower_char)
  show ?thesis
    by (simp add: lower_def strip_def dropWhile_map rev_map c)
qed

lemma kw_group_strip: "kw_group slot (strip kw) = kw_group slot kw"
proof -
  have e: "expand_variants slot (strip kw) = expand_variants slot kw"
    by (simp add: expand_variants_def strip_idem)
  have "str_in ''open vocabulary'' (lower (strip kw)) = str_in ''open vocabulary'' (lower kw)"
    "str_in ''open-vocabulary'' (lower (strip kw)) = str_in ''open-vocabulary'' (lower kw)"
    "str_in ''segmentation'' (lower (strip kw)) = str_in ''segmentation'' (lower kw)"
    unfolding lower_strip by (rule str_in_strip; simp add: isspace_def)+
  then show ?thesis by (simp add: kw_group_def Let_def e)
qed

lemma kw_groups_normalize_list:
  "map (kw_group slot) (normalize_list xs)
   = map (kw_group slot)
       (filter (\<lambda>k. strip k \<noteq> []) (case xs of None \<Rightarrow> [] | Some l \<Rightarrow> l))"
proof -
  have "(c \<noteq> [] \<and> strip c \<noteq> []) = (strip c \<noteq> [])" for c by (auto simp: strip_def)
  then show ?thesis by (simp add: normalize_list_def kw_group_strip comp_def)
qed

section \<open>The top-level compiler (\<open>build_search_query\<close>)\<close>

text \<open>
  The test \<open>(logic or "AND").upper() == "AND"\<close> holds exactly for the eight spellings of
  \<open>AND\<close>: no other code point below 256 has A, N or D as its upper case.
\<close>

lemma upper_char_65: "upper_char c = [65] \<longleftrightarrow> c = CHR ''A'' \<or> c = CHR ''a''"
proof -
  have "of_char c < (256::nat)" by (rule nat_of_char_less_256)
  then have "upper_char c = [65] \<longleftrightarrow> of_char c = (65::nat) \<or> of_char c = (97::nat)"
    by (auto simp: upper_char_def Let_def)
  also have "\<dots> \<longleftrightarrow> c = CHR ''A'' \<or> c = CHR ''a''"
    using of_char_eq_iff[of c "CHR ''A''", where ?'a = nat]
      of_char_eq_iff[of c "CHR ''a''", where ?'a = nat]
    by simp
  finally show ?thesis .
qed

lemma upper_char_78: "upper_char c = [78] \<longleftrightarrow> c = CHR ''N'' \<or> c = CHR ''n''"
proof -
  have "of_char c < (256::nat)" by (rule nat_of_char_less_256)
  then have "upper_char c = [78] \<longleftrightarrow> of_char c = (78::nat) \<or> of_char c = (110::nat)"
    by (auto simp: upper_char_def Let_def)
  also have "\<dots> \<longleftrightarrow> c = CHR ''N'' \<or> c = CHR ''n''"
    using of_char_eq_iff[of c "CHR ''N''", where ?'a = nat]
      of_char_eq_iff[of c "CHR ''n''", where ?'a = nat]
    by simp
  finally show ?thesis .
qed

lemma upper_char_68: "upper_char c = [68] \<longleftrightarrow> c = CHR ''D'' \<or> c = CHR ''d''"
proof -
  have "of_char c < (256::nat)" by (rule nat_of_char_less_256)
  then have "upper_char c = [68] \<longleftrightarrow> of_char c = (68::nat) \<or> of_char c = (100::nat)"
    by (auto simp: upper_char_def Let_def)
  also have "\<dots> \<longleftrightarrow> c = CHR ''D'' \<or> c = CHR ''d''"
    using of_char_eq_iff[of c "CHR ''D''", where ?'a = nat]
      of_char_eq_iff[of c "CHR ''d''", where ?'a = nat]
    by simp
  finally show ?thesis .
qed

lemma upper_char_shape: "(\<exists>n. upper_char c = [n]) \<or> upper_char c = [83, 83]"
  by (simp add: upper_char_def Let_def)

lemma upper_char_append:
  assumes "upper_char c @ r = n # t" and "n \<noteq> 83"
  shows "upper_char c = [n] \<and> r = t"
  using assms upper_char_shape[of c] by auto

lemma upper_AND_iff: "upper s = code_points ''AND'' \<longleftrightarrow> matches_AND s"
proof
  assume a: "upper s = code_points ''AND''"
  then have u: "concat (map upper_char s) = [65, 78, 68]"
    by (simp add: upper_def code_points_def)
  then obtain a s1 where s: "s = a # s1" by (cases s) auto
  with u have "upper_char a @ concat (map upper_char s1) = 65 # [78, 68]" by simp
  then have a1: "upper_char a = [65]" and u1: "concat (map upper_char s1) = [78, 68]"
    using upper_char_append by fastforce+
  then obtain b s2 where s1: "s1 = b # s2" by (cases s1) auto
  with u1 have "upper_char b @ concat (map upper_char s2) = 78 # [68]" by simp
  then have b1: "upper_char b = [78]" and u2: "concat (map upper_char s2) = [68]"
    using upper_char_append by fastforce+
  then obtain c s3 where s2: "s2 = c # s3" by (cases s2) auto
  with u2 have "upper_char c @ concat (map upper_char s3) = 68 # []" by simp
  then have c1: "upper_char c = [68]" and u3: "concat (map upper_char s3) = []"
    using upper_char_append by fastforce+
  have "s3 = []"
  proof (cases s3)
    case (Cons d s4)
    then show ?thesis using u3 upper_char_shape[of d] by auto
  qed simp
  then show "matches_AND s"
    using s s1 s2 a1 b1 c1
    by (auto simp: matches_AND_def upper_char_65 upper_char_78 upper_char_68)
next
  assume "matches_AND s"
  then show "upper s = code_points ''AND''"
    by (auto simp: matches_AND_def upper_def upper_char_def code_points_def)
qed

text \<open>
  The compiler in terms of the three filtered lists: the expressions \<open>cat_q\<close>, \<open>key_q\<close>
  and \<open>exclude_q\<close> are non-empty texts exactly when their lists are non-empty.
\<close>

lemma build_search_query_unfold:
  "build_search_query slot cats keys logic excl =
     (let m = (if normalize_list cats \<noteq> [] \<and> normalize_list keys \<noteq> []
               then cat_expr (normalize_list cats) @ '' ''
                    @ (if upper (logic_or_default logic) = code_points ''AND''
                       then ''AND'' else ''OR'')
                    @ '' '' @ kw_expr slot (normalize_list keys)
               else if normalize_list cats \<noteq> [] then cat_expr (normalize_list cats)
               else if normalize_list keys \<noteq> [] then kw_expr slot (normalize_list keys)
               else ''all:*'')
      in if normalize_list excl \<noteq> []
         then ''('' @ m @ '') ANDNOT '' @ kw_expr slot (normalize_list excl)
         else m)"
  by (simp add: build_search_query_def Let_def)

text \<open>The definitions unfolded to evaluate the compiler on concrete requests.\<close>

lemmas eval_defs = normalize_list_def strip_def isspace_def kw_group_def expand_variants_def
  set_iter_def sorted_len_reverse_def set_add_def replace_def lower_def lower_char_def
  char_of_eq_iff field_or_def FIELDS_def quote_def logic_or_default_def upper_def
  upper_char_def code_points_def

text \<open>
  A filtered list is empty exactly when the list is absent or every entry consists of
  whitespace only (the empty entry included).
\<close>

lemma normalize_empty_iff:
  "normalize_list xs = [] \<longleftrightarrow>
     (\<forall>c \<in> set (case xs of None \<Rightarrow> [] | Some l \<Rightarrow> l). list_all isspace c)"
proof -
  have "strip c = [] \<longleftrightarrow> list_all isspace c" for c
  proof -
    have "(\<forall>x\<in>set (dropWhile isspace c). isspace x) \<longleftrightarrow> (\<forall>x\<in>set c. isspace x)"
      by (induction c) auto
    then show ?thesis by (simp add: strip_def list_all_iff)
  qed
  moreover have "strip [] = []" by (simp add: strip_def)
  ultimately show ?thesis
    by (auto simp: normalize_list_def filter_empty_conv)
qed

text \<open>
  A request whose two exclusion keywords build the same set in opposite insertion orders,
  in a process where each set yields the string inserted second first: the two groups
  list their variants in opposite orders.
\<close>

lemma second_inserted_first_query:
  \<open>build_search_query (\<lambda>h s. if s = hd h then 1 else 0) None None None
       (Some [''a b'', ''a-b''])
     = ''(all:*) ANDNOT (((ti:"a-b" OR abs:"a-b" OR co:"a-b")''
       @ '' OR (ti:"a b" OR abs:"a b" OR co:"a b"))''
       @ '' OR ((ti:"a b" OR abs:"a b" OR co:"a b")''
       @ '' OR (ti:"a-b" OR abs:"a-b" OR co:"a-b")))''\<close>
  by (simp add: build_search_query_def eval_defs)

lemma cat_prefix_eta:
  "(@) ''cat:'' = (\<lambda>c. CHR ''c'' # CHR ''a'' # CHR ''t'' # CHR '':'' # c)"
  by (rule ext) simp

text \<open>
  C1. When the list of exclusion keywords is non-empty after stripping and dropping the
  empty entries, the result is \<open>(\<close> main query \<open>) ANDNOT \<close> exclusion expression: the
  main query is the combination of the category and keyword expressions, or the
  fallback \<open>all:*\<close>; the exclusion expression is the parenthesised OR of \<open>_kw_group\<close>
  over the kept exclusion keywords in input order, the same function that builds the
  groups of the inclusion keywords, and it gives the same group for a keyword as
  written and as stripped.
\<close>

theorem exclusion_andnot:
  assumes "normalize_list excl \<noteq> []"
  shows "build_search_query slot cats keys logic excl =
     ''(''
     @ (if normalize_list cats \<noteq> [] \<and> normalize_list keys \<noteq> []
        then cat_expr (normalize_list cats) @ '' ''
             @ (if upper (logic_or_default logic) = code_points ''AND'' then ''AND'' else ''OR'')
             @ '' '' @ kw_expr slot (normalize_list keys)
        else if normalize_list cats \<noteq> [] then cat_expr (normalize_list cats)
        else if normalize_list keys \<noteq> [] then kw_expr slot (normalize_list keys)
        else ''all:*'')
     @ '') ANDNOT '' @ kw_expr slot (normalize_list excl)
   \<and> map (kw_group slot) (normalize_list excl)
     = map (kw_group slot)
         (filter (\<lambda>k. strip k \<noteq> []) (case excl of None \<Rightarrow> [] | Some l \<Rightarrow> l))"
  using assms kw_groups_normalize_list [of slot excl]
  by (simp add: build_search_query_unfold Let_def)

theorem exclusion_andnot_witness:
  "normalize_list (Some ['' survey'', '' '']) \<noteq> []
   \<and> build_search_query (\<lambda>h s. 0) (Some [''cs.CV'']) (Some [''nerf'']) (Some ''AND'')
        (Some ['' survey'', '' ''])
     = ''((cat:cs.CV) AND (((ti:nerf OR abs:nerf OR co:nerf))))''
       @ '' ANDNOT (((ti:survey OR abs:survey OR co:survey)))''"
proof -
  have h: "normalize_list (Some ['' survey'', '' '']) \<noteq> []" by (simp add: eval_defs)
  show ?thesis
    using h exclusion_andnot [OF h, of "\<lambda>h s. 0" "Some [''cs.CV'']" "Some [''nerf'']"
        "Some ''AND''"]
    by (simp add: eval_defs)
qed

text \<open>
  C9. When the categories and the keywords are both absent or empty after filtering and
  the exclusion keywords are not, the result is \<open>(all:*) ANDNOT \<close> followed by the
  exclusion OR-group: the exclusion applies to the fallback query as well.
\<close>

theorem fallback_andnot:
  assumes "normalize_list cats = []" and "normalize_list keys = []"
    and "normalize_list excl \<noteq> []"
  shows "build_search_query slot cats keys logic excl =
           ''(all:*) ANDNOT '' @ kw_expr slot (normalize_list excl)"
  using assms by (simp add: build_search_query_unfold Let_def)

theorem fallback_andnot_witness:
  "normalize_list None = [] \<and> normalize_list (Some ['''', ''  '']) = []
   \<and> normalize_list (Some [''survey'']) \<noteq> []
   \<and> build_search_query (\<lambda>h s. 0) None (Some ['''', ''  '']) None (Some [''survey''])
     = ''(all:*) ANDNOT (((ti:survey OR abs:survey OR co:survey)))''"
proof -
  have a: "normalize_list None = []" by (simp add: eval_defs)
  have b: "normalize_list (Some ['''', ''  '']) = []" by (simp add: eval_defs)
  have c: "normalize_list (Some [''survey'']) \<noteq> []" by (simp add: eval_defs)
  show ?thesis
    using a b c fallback_andnot [OF a b c, of "\<lambda>h s. 0" None]
    by (simp add: eval_defs)
qed

text \<open>
  C3. \<open>build_search_query\<close> returns a query for every request: each of its steps is
  defined on every string, list and \<open>None\<close>, so the embedding has no error result. When
  the categories, the keywords and the exclusion keywords are all absent or empty after
  filtering, the query is \<open>all:*\<close>, whatever the logic mode; in particular for three
  empty lists and the mode \<open>AND\<close>.
\<close>

theorem empty_request:
  assumes "normalize_list cats = []" and "normalize_list keys = []"
    and "normalize_list excl = []"
  shows "build_search_query slot cats keys logic excl = ''all:*''"
  using assms by (simp add: build_search_query_unfold Let_def)

theorem empty_request_witness:
  "normalize_list (Some []) = []
   \<and> build_search_query (\<lambda>h s. 0) (Some []) (Some []) (Some ''AND'') (Some []) = ''all:*''"
proof -
  have a: "normalize_list (Some []) = []" by (simp add: normalize_list_def)
  show ?thesis using a empty_request [OF a a a, of "\<lambda>h s. 0" "Some ''AND''"] by simp
qed

text \<open>
  C4, as stated, counts an absent or empty logic mode among the inputs joined with OR.
  The code replaces both by \<open>AND\<close> first (\<open>logic or "AND"\<close>): with one category and one
  keyword, the mode \<open>None\<close> and the empty mode give the AND query, not the OR query.
\<close>

theorem logic_none_counterexample:
  "build_search_query (\<lambda>h s. 0) (Some [''cs.CV'']) (Some [''nerf'']) None None
     = ''(cat:cs.CV) AND (((ti:nerf OR abs:nerf OR co:nerf)))''
   \<and> build_search_query (\<lambda>h s. 0) (Some [''cs.CV'']) (Some [''nerf'']) (Some '''') None
     = ''(cat:cs.CV) AND (((ti:nerf OR abs:nerf OR co:nerf)))''
   \<and> build_search_query (\<lambda>h s. 0) (Some [''cs.CV'']) (Some [''nerf'']) None None
     \<noteq> ''(cat:cs.CV) OR (((ti:nerf OR abs:nerf OR co:nerf)))''"
  by (simp add: build_search_query_def eval_defs)

text \<open>
  C4, amended. When both a category expression and a keyword expression are present, every
  non-empty logic mode that does not match \<open>AND\<close> case-insensitively joins them with OR
  (an absent or empty mode is not among these); and, for every request, the mode \<open>or\<close>
  gives the same query as \<open>OR\<close>.
\<close>

theorem logic_not_and_gives_or:
  assumes "normalize_list cats \<noteq> []" and "normalize_list keys \<noteq> []"
    and "s \<noteq> []" and "\<not> matches_AND s"
  shows "build_search_query slot cats keys (Some s) excl =
     (if normalize_list excl \<noteq> []
      then ''('' @ cat_expr (normalize_list cats) @ '' OR ''
           @ kw_expr slot (normalize_list keys)
           @ '') ANDNOT '' @ kw_expr slot (normalize_list excl)
      else cat_expr (normalize_list cats) @ '' OR '' @ kw_expr slot (normalize_list keys))
   \<and> build_search_query slot cats keys (Some ''or'') excl
     = build_search_query slot cats keys (Some ''OR'') excl"
proof -
  have "upper (logic_or_default (Some s)) \<noteq> code_points ''AND''"
    using assms(3,4) by (simp add: logic_or_default_def upper_AND_iff)
  moreover have "upper (logic_or_default (Some ''or'')) \<noteq> code_points ''AND''"
    "upper (logic_or_default (Some ''OR'')) \<noteq> code_points ''AND''"
    by (simp_all add: logic_or_default_def upper_AND_iff matches_AND_def)
  ultimately show ?thesis
    using assms(1,2) by (simp add: build_search_query_unfold Let_def)
qed

theorem logic_not_and_gives_or_witness:
  "normalize_list (Some [''cs.CV'']) \<noteq> [] \<and> normalize_list (Some [''nerf'']) \<noteq> []
   \<and> ''either'' \<noteq> [] \<and> \<not> matches_AND ''either''
   \<and> build_search_query (\<lambda>h s. 0) (Some [''cs.CV'']) (Some [''nerf'']) (Some ''either'') None
     = ''(cat:cs.CV) OR (((ti:nerf OR abs:nerf OR co:nerf)))''"
proof -
  have a: "normalize_list (Some [''cs.CV'']) \<noteq> []" by (simp add: eval_defs)
  have b: "normalize_list (Some [''nerf'']) \<noteq> []" by (simp add: eval_defs)
  have c: "''either'' \<noteq> []" by simp
  have d: "\<not> matches_AND ''either''" by (simp add: matches_AND_def)
  show ?thesis
    using a b c d logic_not_and_gives_or [OF a b c d, of "\<lambda>h s. 0" None]
    by (simp add: eval_defs)
qed

text \<open>
  C5, as stated, has an unrecognised logic mode default to \<open>AND\<close>. The code joins with
  OR for every non-empty mode other than \<open>AND\<close>: the mode \<open>XOR\<close> gives the OR query.
\<close>

theorem logic_unrecognized_counterexample:
  "build_search_query (\<lambda>h s. 0) (Some [''cs.CV'']) (Some [''nerf'']) (Some ''XOR'') None
     = ''(cat:cs.CV) OR (((ti:nerf OR abs:nerf OR co:nerf)))''
   \<and> build_search_query (\<lambda>h s. 0) (Some [''cs.CV'']) (Some [''nerf'']) (Some ''XOR'') None
     \<noteq> ''(cat:cs.CV) AND (((ti:nerf OR abs:nerf OR co:nerf)))''"
  by (simp add: build_search_query_def eval_defs)

text \<open>
  C5, amended. When both a category expression and a keyword expression are present, a
  logic mode that is absent (\<open>None\<close>) or empty, like one that matches \<open>AND\<close>
  case-insensitively, joins them with AND.
\<close>

theorem logic_absent_gives_and:
  assumes "normalize_list cats \<noteq> []" and "normalize_list keys \<noteq> []"
    and "logic = None \<or> logic = Some [] \<or> (\<exists>s. logic = Some s \<and> matches_AND s)"
  shows "build_search_query slot cats keys logic excl =
     (if normalize_list excl \<noteq> []
      then ''('' @ cat_expr (normalize_list cats) @ '' AND ''
           @ kw_expr slot (normalize_list keys)
           @ '') ANDNOT '' @ kw_expr slot (normalize_list excl)
      else cat_expr (normalize_list cats) @ '' AND '' @ kw_expr slot (normalize_list keys))"
proof -
  have "upper (logic_or_default logic) = code_points ''AND''"
    using assms(3) by (auto simp: logic_or_default_def upper_AND_iff matches_AND_def)
  then have "(if upper (logic_or_default logic) = code_points ''AND'' then ''AND'' else ''OR'')
             = ''AND''" by simp
  then show ?thesis
    unfolding build_search_query_unfold Let_def using assms(1,2)
    by (simp add: cat_prefix_eta)
qed

theorem logic_absent_gives_and_witness:
  "normalize_list (Some [''cs.CV'']) \<noteq> [] \<and> normalize_list (Some [''nerf'']) \<noteq> []
   \<and> build_search_query (\<lambda>h s. 0) (Some [''cs.CV'']) (Some [''nerf'']) None None
     = ''(cat:cs.CV) AND (((ti:nerf OR abs:nerf OR co:nerf)))''"
proof -
  have a: "normalize_list (Some [''cs.CV'']) \<noteq> []" by (simp add: eval_defs)
  have b: "normalize_list (Some [''nerf'']) \<noteq> []" by (simp add: eval_defs)
  have c: "None = None \<or> None = Some [] \<or> (\<exists>s. None = Some s \<and> matches_AND s)" by simp
  show ?thesis
    using a b logic_absent_gives_and [OF a b c, of "\<lambda>h s. 0" None]
    by (simp add: eval_defs)
qed

end
